theory Spec2Isabelle
  imports Main "HOL-Library.FSet" "HOL-Library.Product_Lexorder" "HOL-Library.Stream"
begin

section \<open>Data model of \<^verbatim>\<open>minesweeper.py\<close>\<close>

text \<open>
  A cell is a pair \<open>(row, column)\<close> of Python integers. Python sets are finite, so they
  are finite sets here; \<open>len\<close> is \<open>fcard\<close>. A \<^verbatim>\<open>Sentence\<close> object has the two
  fields \<^verbatim>\<open>cells\<close> and \<^verbatim>\<open>count\<close>; its \<^verbatim>\<open>__eq__\<close> compares both fields, which is
  equality of the record. The constructor copies the cell set and stores any integer
  as the count: nothing restricts the count.
\<close>

type_synonym cell = "int \<times> int"

record sentence =
  cells :: "cell fset"
  count :: int

text \<open>
  The exceptions the modelled code can raise: \<^verbatim>\<open>set.remove\<close> on an absent element and
  \<^verbatim>\<open>random.randint\<close> on an empty range.
\<close>

datatype error = KeyError | ValueError

subsection \<open>The class \<^verbatim>\<open>Minesweeper\<close>\<close>

text \<open>
  The board is a grid of booleans that is true exactly at the cells of the set
  \<^verbatim>\<open>mines\<close>, so the record keeps the dimensions and that set; \<^verbatim>\<open>board[i][j]\<close> is
  membership in it.

  Both \<^verbatim>\<open>nearby_mines\<close> and \<^verbatim>\<open>add_knowledge\<close> run the same two nested loops,
  \<^verbatim>\<open>for i in range(cell[0] - 1, cell[0] + 2)\<close> and
  \<^verbatim>\<open>for j in range(cell[1] - 1, cell[1] + 2)\<close>; \<open>window\<close> is the list of the pairs
  \<open>(i, j)\<close> in the order the loops visit them.
\<close>

record minesweeper =
  board_height :: int
  board_width :: int
  board_mines :: "cell fset"

definition window :: "cell \<Rightarrow> cell list" where
  "window cell =
     concat (map (\<lambda>i. map (\<lambda>j. (i, j)) [snd cell - 1 .. snd cell + 1])
                 [fst cell - 1 .. fst cell + 1])"

definition nearby_mines :: "minesweeper \<Rightarrow> cell \<Rightarrow> int" where
  "nearby_mines g cell =
     fold (\<lambda>(i, j) cnt.
             if (i, j) = cell then cnt
             else if 0 \<le> i \<and> i < board_height g \<and> 0 \<le> j \<and> j < board_width g
               then (if (i, j) |\<in>| board_mines g then cnt + 1 else cnt)
               else cnt)
          (window cell) 0"

subsection \<open>The methods of \<^verbatim>\<open>Sentence\<close>\<close>

definition known_mines :: "sentence \<Rightarrow> cell fset" where
  "known_mines s =
     (let mine_count = count s
      in if int (fcard (cells s)) = mine_count \<and> mine_count \<noteq> 0 then cells s else {||})"

definition known_safes :: "sentence \<Rightarrow> cell fset" where
  "known_safes s = (if count s = 0 then cells s else {||})"

text \<open>\<^verbatim>\<open>Sentence.mark_mine\<close> and \<^verbatim>\<open>Sentence.mark_safe\<close>; the object is updated in place,
  the model returns the updated sentence.\<close>

definition sentence_mark_mine :: "cell \<Rightarrow> sentence \<Rightarrow> sentence" where
  "sentence_mark_mine cell s =
     (if cell |\<in>| cells s
      then s\<lparr>cells := cells s |-| {|cell|}, count := count s - 1\<rparr>
      else s)"

definition sentence_mark_safe :: "cell \<Rightarrow> sentence \<Rightarrow> sentence" where
  "sentence_mark_safe cell s =
     (if cell |\<in>| cells s then s\<lparr>cells := cells s |-| {|cell|}\<rparr> else s)"

subsection \<open>The helper \<^verbatim>\<open>is_subset\<close>\<close>

text \<open>The loop over \<^verbatim>\<open>small_set\<close> that returns \<^verbatim>\<open>False\<close> at the first cell missing from
  \<^verbatim>\<open>big_set\<close> is a bounded universal quantifier.\<close>

definition is_subset :: "sentence \<Rightarrow> sentence \<Rightarrow> bool" where
  "is_subset set1 set2 =
     (let (big_set, small_set) =
            (if fcard (cells set1) > fcard (cells set2)
             then (cells set1, cells set2)
             else (cells set2, cells set1))
      in \<forall>cell |\<in>| small_set. cell |\<in>| big_set)"

subsection \<open>The class \<^verbatim>\<open>MinesweeperAI\<close>\<close>

record minesweeper_ai =
  height :: int
  width :: int
  moves_made :: "cell fset"
  mines :: "cell fset"
  safes :: "cell fset"
  knowledge :: "sentence list"

definition init_ai :: "int \<Rightarrow> int \<Rightarrow> minesweeper_ai" where
  "init_ai h w =
     \<lparr>height = h, width = w, moves_made = {||}, mines = {||}, safes = {||}, knowledge = []\<rparr>"

definition mark_mine :: "cell \<Rightarrow> minesweeper_ai \<Rightarrow> minesweeper_ai" where
  "mark_mine cell s =
     s\<lparr>mines := finsert cell (mines s),
       knowledge := map (sentence_mark_mine cell) (knowledge s)\<rparr>"

definition mark_safe :: "cell \<Rightarrow> minesweeper_ai \<Rightarrow> minesweeper_ai" where
  "mark_safe cell s =
     s\<lparr>safes := finsert cell (safes s),
       knowledge := map (sentence_mark_safe cell) (knowledge s)\<rparr>"

definition neighbor_step ::
  "minesweeper_ai \<Rightarrow> cell \<Rightarrow> cell \<Rightarrow> cell fset \<times> int \<Rightarrow> cell fset \<times> int" where
  "neighbor_step s cell ij acc =
     (let (cs, cnt) = acc; (i, j) = ij
      in if cell = (i, j) then acc
         else if 0 \<le> i \<and> i < height s \<and> 0 \<le> j \<and> j < width s
           then (let neighbor = (i, j)
                 in if \<not> (neighbor |\<in>| mines s \<or> neighbor |\<in>| safes s)
                    then (finsert neighbor cs, cnt)
                    else if neighbor |\<in>| mines s then (cs, cnt - 1) else acc)
           else acc)"

definition add_sentence :: "minesweeper_ai \<Rightarrow> cell \<Rightarrow> int \<Rightarrow> minesweeper_ai" where
  "add_sentence s cell cnt =
     (let s1 = mark_safe cell (s\<lparr>moves_made := finsert cell (moves_made s)\<rparr>);
          (cs, cnt') = fold (neighbor_step s1 cell) (window cell) ({||}, cnt)
      in s1\<lparr>knowledge := knowledge s1 @ [\<lparr>cells = cs, count = cnt'\<rparr>]\<rparr>)"

definition collect_safes :: "sentence list \<Rightarrow> cell fset" where
  "collect_safes K = fold (\<lambda>sentence acc. acc |\<union>| known_safes sentence) K {||}"

definition collect_mines :: "sentence list \<Rightarrow> cell fset" where
  "collect_mines K = fold (\<lambda>sentence acc. acc |\<union>| known_mines sentence) K {||}"

function prune :: "nat \<Rightarrow> sentence list \<Rightarrow> sentence list" where
  "prune index K =
     (if index < length K
      then (if fcard (cells (K ! index)) = 0
            then prune index (take index K @ drop (Suc index) K)
            else prune (index + 1) K)
      else K)"
  by pat_completeness auto
termination
  by (relation "measure (\<lambda>(index, K). 2 * length K - index)") auto

definition remove_cell :: "cell \<Rightarrow> cell fset \<Rightarrow> error + cell fset" where
  "remove_cell c S = (if c |\<in>| S then Inr (S |-| {|c|}) else Inl KeyError)"

fun remove_cells :: "cell list \<Rightarrow> cell fset \<Rightarrow> error + cell fset" where
  "remove_cells [] S = Inr S"
| "remove_cells (c # cs) S =
     (case remove_cell c S of Inl e \<Rightarrow> Inl e | Inr S' \<Rightarrow> remove_cells cs S')"

definition subtract :: "sentence \<Rightarrow> sentence \<Rightarrow> error + sentence" where
  "subtract sentence1 sentence2 =
     (let (big, small) =
            (if fcard (cells sentence1) > fcard (cells sentence2)
             then (sentence1, sentence2) else (sentence2, sentence1));
          mine_count = count big - count small
      in case remove_cells (sorted_list_of_fset (cells small)) (cells big) of
           Inl e \<Rightarrow> Inl e
         | Inr new_cells \<Rightarrow> Inr \<lparr>cells = new_cells, count = mine_count\<rparr>)"

partial_function (option) subset_loop ::
  "nat \<Rightarrow> nat \<Rightarrow> sentence list \<Rightarrow> bool \<Rightarrow> (error + sentence list \<times> bool) option" where
  "subset_loop i j K changed =
     (if i < length K then
        (if j < length K then
           (let sentence1 = K ! i; sentence2 = K ! j
            in if cells sentence2 = cells sentence1 then subset_loop i (j + 1) K changed
               else if is_subset sentence1 sentence2 then
                 (case subtract sentence1 sentence2 of
                    Inl e \<Rightarrow> Some (Inl e)
                  | Inr new_sentence \<Rightarrow>
                      if new_sentence \<notin> set K
                      then subset_loop i (j + 1) (K @ [new_sentence]) True
                      else subset_loop i (j + 1) K changed)
               else subset_loop i (j + 1) K changed)
         else subset_loop (i + 1) 0 K changed)
      else Some (Inr (K, changed)))"

declare subset_loop.simps [code]

definition inference_pass :: "minesweeper_ai \<Rightarrow> (error + minesweeper_ai \<times> bool) option" where
  "inference_pass s =
     (let safes' = collect_safes (knowledge s);
          mines' = collect_mines (knowledge s);
          s1 = (if fcard safes' > 0 then fold mark_safe (sorted_list_of_fset safes') s else s);
          s2 = (if fcard mines' > 0 then fold mark_mine (sorted_list_of_fset mines') s1 else s1);
          knowledge_changed = (fcard safes' > 0 \<or> fcard mines' > 0)
      in case subset_loop 0 0 (prune 0 (knowledge s2)) knowledge_changed of
           None \<Rightarrow> None
         | Some (Inl e) \<Rightarrow> Some (Inl e)
         | Some (Inr (K, changed)) \<Rightarrow> Some (Inr (s2\<lparr>knowledge := K\<rparr>, changed)))"

partial_function (option) inference_loop ::
  "minesweeper_ai \<Rightarrow> (error + minesweeper_ai) option" where
  "inference_loop s =
     (case inference_pass s of
        None \<Rightarrow> None
      | Some (Inl e) \<Rightarrow> Some (Inl e)
      | Some (Inr (s', changed)) \<Rightarrow> if changed then inference_loop s' else Some (Inr s'))"

declare inference_loop.simps [code]

definition add_knowledge ::
  "minesweeper_ai \<Rightarrow> cell \<Rightarrow> int \<Rightarrow> (error + minesweeper_ai) option" where
  "add_knowledge s cell cnt = inference_loop (add_sentence s cell cnt)"

partial_function (option) make_random_move ::
  "minesweeper_ai \<Rightarrow> cell stream \<Rightarrow> (error + cell) option" where
  "make_random_move s draws =
     (if height s - 1 < 0 \<or> width s - 1 < 0 then Some (Inl ValueError)
      else (let cords = shd draws
            in if \<not> (cords |\<in>| mines s \<or> cords |\<in>| moves_made s)
               then Some (Inr cords)
               else make_random_move s (stl draws)))"

declare make_random_move.simps [code]

section \<open>Notions used to state the properties\<close>

definition derived :: "sentence \<Rightarrow> sentence \<Rightarrow> sentence" where
  "derived big small = \<lparr>cells = cells big |-| cells small, count = count big - count small\<rparr>"

definition count_in_range :: "sentence \<Rightarrow> bool" where
  "count_in_range s \<longleftrightarrow> 0 \<le> count s \<and> count s \<le> int (fcard (cells s))"

definition in_bounds :: "minesweeper_ai \<Rightarrow> cell \<Rightarrow> bool" where
  "in_bounds s c \<longleftrightarrow> 0 \<le> fst c \<and> fst c < height s \<and> 0 \<le> snd c \<and> snd c < width s"

definition chebyshev :: "cell \<Rightarrow> cell \<Rightarrow> int" where
  "chebyshev a b = max \<bar>fst a - fst b\<bar> \<bar>snd a - snd b\<bar>"

definition appended :: "sentence list \<Rightarrow> sentence \<Rightarrow> sentence \<Rightarrow> sentence list" where
  "appended K a b =
     (if cells a |\<subset>| cells b \<and> derived b a \<notin> set K then [derived b a]
      else if cells b |\<subset>| cells a \<and> derived a b \<notin> set K then [derived a b]
      else [])"

definition closed :: "sentence list \<Rightarrow> bool" where
  "closed K \<longleftrightarrow> (\<forall>a \<in> set K. \<forall>b \<in> set K. cells a |\<subset>| cells b \<longrightarrow> derived b a \<in> set K)"

definition pair_done :: "sentence list \<Rightarrow> sentence \<Rightarrow> sentence \<Rightarrow> bool" where
  "pair_done K a b \<longleftrightarrow>
     (cells a |\<subset>| cells b \<longrightarrow> derived b a \<in> set K) \<and>
     (cells b |\<subset>| cells a \<longrightarrow> derived a b \<in> set K)"

definition visited :: "nat \<Rightarrow> nat \<Rightarrow> sentence list \<Rightarrow> bool" where
  "visited i j K \<longleftrightarrow>
     (\<forall>p q. q \<le> p \<and> p < length K \<and> (p < i \<or> (p = i \<and> q < j)) \<longrightarrow> pair_done K (K ! p) (K ! q))"

definition holds :: "minesweeper \<Rightarrow> sentence \<Rightarrow> bool" where
  "holds g sen \<longleftrightarrow> count sen = int (fcard (cells sen |\<inter>| board_mines g))"

definition consistent :: "minesweeper \<Rightarrow> minesweeper_ai \<Rightarrow> bool" where
  "consistent g s \<longleftrightarrow>
     height s = board_height g \<and> width s = board_width g \<and>
     safes s |\<inter>| board_mines g = {||} \<and> mines s |\<subseteq>| board_mines g \<and>
     (\<forall>sen \<in> set (knowledge s). holds g sen)"

definition marked :: "minesweeper_ai \<Rightarrow> minesweeper_ai" where
  "marked s =
     (let S = collect_safes (knowledge s); M = collect_mines (knowledge s)
      in s\<lparr>safes := safes s |\<union>| S, mines := mines s |\<union>| M,
           knowledge :=
             map (\<lambda>sen. \<lparr>cells = cells sen |-| S |-| M,
                         count = count sen - int (fcard ((cells sen |-| S) |\<inter>| M))\<rparr>)
                 (knowledge s)\<rparr>)"

definition progress :: "minesweeper_ai \<Rightarrow> bool" where
  "progress s \<longleftrightarrow> collect_safes (knowledge s) \<noteq> {||} \<or> collect_mines (knowledge s) \<noteq> {||}"



definition eligible :: "minesweeper_ai \<Rightarrow> cell set" where
  "eligible s = {c. in_bounds s c \<and> c |\<notin>| mines s \<and> c |\<notin>| moves_made s}"

section \<open>Properties of sentences\<close>

text \<open>
  C4. \<^verbatim>\<open>known_mines\<close> returns the whole cell set when the count equals the number of
  cells and is strictly positive, and the empty set in every other case, the sentence
  with no cells and count 0 included. For a sentence that has cells, the result is the
  whole cell set exactly under that condition.
\<close>

theorem known_mines_spec:
  "known_mines s =
     (if count s = int (fcard (cells s)) \<and> 0 < count s then cells s else {||})
   \<and> known_mines \<lparr>cells = {||}, count = 0\<rparr> = {||}
   \<and> (cells s \<noteq> {||} \<longrightarrow>
        (known_mines s = cells s \<longleftrightarrow> count s = int (fcard (cells s)) \<and> 0 < count s))"
  by (auto simp: known_mines_def Let_def)

theorem known_mines_spec_witness:
  "known_mines \<lparr>cells = {|(0, 1), (1, 1)|}, count = 2\<rparr> = {|(0, 1), (1, 1)|}
   \<and> known_mines \<lparr>cells = {|(0, 1), (1, 1)|}, count = 1\<rparr> = {||}
   \<and> known_mines \<lparr>cells = {||}, count = 0\<rparr> = {||}"
  using known_mines_spec [of "\<lparr>cells = {|(0, 1), (1, 1)|}, count = 2\<rparr>"]
    known_mines_spec [of "\<lparr>cells = {|(0, 1), (1, 1)|}, count = 1\<rparr>"]
  by (simp add: fcard_finsert_if)

text \<open>
  C5. \<^verbatim>\<open>known_safes\<close> returns the whole cell set when the count is 0 and the empty set
  when it is not (so in particular when it is positive). For a sentence that has cells,
  the result is the whole cell set exactly when the count is 0.
\<close>

theorem known_safes_spec:
  "(count s = 0 \<longrightarrow> known_safes s = cells s)
   \<and> (0 < count s \<longrightarrow> known_safes s = {||})
   \<and> (count s \<noteq> 0 \<longrightarrow> known_safes s = {||})
   \<and> (cells s \<noteq> {||} \<longrightarrow> (known_safes s = cells s \<longleftrightarrow> count s = 0))"
  by (auto simp: known_safes_def)

theorem known_safes_spec_witness:
  "known_safes \<lparr>cells = {|(0, 1), (1, 1)|}, count = 0\<rparr> = {|(0, 1), (1, 1)|}
   \<and> known_safes \<lparr>cells = {|(0, 1), (1, 1)|}, count = 1\<rparr> = {||}"
  using known_safes_spec [of "\<lparr>cells = {|(0, 1), (1, 1)|}, count = 0\<rparr>"]
    known_safes_spec [of "\<lparr>cells = {|(0, 1), (1, 1)|}, count = 1\<rparr>"]
  by simp

lemma is_subset_iff:
  "is_subset a b =
     (if fcard (cells a) > fcard (cells b) then cells b |\<subseteq>| cells a else cells a |\<subseteq>| cells b)"
  by (auto simp: is_subset_def)

lemma fcard_less_not_fsubset: "fcard B < fcard A \<Longrightarrow> \<not> A |\<subseteq>| B"
  using fcard_mono [of A B] by auto

lemma is_subset_sym: "is_subset a b = is_subset b a"
proof (cases "fcard (cells a) = fcard (cells b)")
  case True
  have "cells a |\<subseteq>| cells b \<longleftrightarrow> cells b |\<subseteq>| cells a"
    using True by (metis fcard_seteq order_refl)
  with True show ?thesis by (simp add: is_subset_iff)
next
  case False
  then show ?thesis by (auto simp: is_subset_iff)
qed

lemma is_subset_strict:
  assumes "cells a \<noteq> cells b"
  shows "is_subset a b \<longleftrightarrow> cells a |\<subset>| cells b \<or> cells b |\<subset>| cells a"
proof (cases "fcard (cells a) > fcard (cells b)")
  case True
  then have "\<not> cells a |\<subseteq>| cells b"
    by (rule fcard_less_not_fsubset)
  with True assms show ?thesis
    by (auto simp: is_subset_iff)
next
  case False
  have "\<not> cells b |\<subset>| cells a"
    using False pfsubset_fcard_mono [of "cells b" "cells a"] by auto
  with False assms show ?thesis
    by (auto simp: is_subset_iff)
qed

lemma distinct_sorted_list_of_fset: "distinct (sorted_list_of_fset S)"
  by (simp add: sorted_list_of_fset.rep_eq)

lemma remove_cells_ok:
  "distinct cs \<Longrightarrow> fset_of_list cs |\<subseteq>| S \<Longrightarrow> remove_cells cs S = Inr (S |-| fset_of_list cs)"
proof (induction cs arbitrary: S)
  case Nil
  then show ?case by simp
next
  case (Cons c cs)
  have "fset_of_list cs |\<subseteq>| S |-| {|c|}"
    using Cons.prems by (auto simp: fset_of_list_elem)
  moreover have "S |-| {|c|} |-| fset_of_list cs = S |-| fset_of_list (c # cs)"
    by auto
  ultimately show ?case
    using Cons by (simp add: remove_cell_def)
qed

lemma remove_cells_fail:
  "\<not> fset_of_list cs |\<subseteq>| S \<Longrightarrow> remove_cells cs S = Inl KeyError"
proof (induction cs arbitrary: S)
  case Nil
  then show ?case by simp
next
  case (Cons c cs)
  show ?case
  proof (cases "c |\<in>| S")
    case True
    then have "\<not> fset_of_list cs |\<subseteq>| S |-| {|c|}"
      using Cons.prems by auto
    then show ?thesis using True Cons.IH by (simp add: remove_cell_def)
  next
    case False
    then show ?thesis by (simp add: remove_cell_def)
  qed
qed

lemma subtract_fsubset:
  assumes "cells a |\<subset>| cells b"
  shows "subtract a b = Inr (derived b a)" and "subtract b a = Inr (derived b a)"
proof -
  have lt: "fcard (cells a) < fcard (cells b)"
    using assms by (rule pfsubset_fcard_mono)
  have rm: "remove_cells (sorted_list_of_fset (cells a)) (cells b) = Inr (cells b |-| cells a)"
    using remove_cells_ok [of "sorted_list_of_fset (cells a)" "cells b"] assms
    by (simp add: less_imp_le distinct_sorted_list_of_fset)
  show "subtract a b = Inr (derived b a)"
    using lt rm by (simp add: subtract_def derived_def)
  show "subtract b a = Inr (derived b a)"
    using lt rm by (simp add: subtract_def derived_def)
qed

lemma subtract_is_subset:
  assumes "is_subset a b"
  shows "\<exists>n. subtract a b = Inr n"
proof -
  have "remove_cells (sorted_list_of_fset (cells a)) (cells b) = Inr (cells b |-| cells a)"
    if "\<not> fcard (cells a) > fcard (cells b)"
    using remove_cells_ok [of "sorted_list_of_fset (cells a)" "cells b"] assms that
    by (simp add: is_subset_iff distinct_sorted_list_of_fset)
  moreover have "remove_cells (sorted_list_of_fset (cells b)) (cells a) = Inr (cells a |-| cells b)"
    if "fcard (cells a) > fcard (cells b)"
    using remove_cells_ok [of "sorted_list_of_fset (cells b)" "cells a"] assms that
    by (simp add: is_subset_iff distinct_sorted_list_of_fset)
  ultimately show ?thesis
    by (cases "fcard (cells a) > fcard (cells b)") (simp_all add: subtract_def)
qed

lemma prune_filter_gen:
  "index \<le> length K \<Longrightarrow> prune index K = take index K @ filter (\<lambda>s. cells s \<noteq> {||}) (drop index K)"
proof (induction index K rule: prune.induct)
  case (1 index K)
  show ?case
  proof (cases "index < length K")
    case False
    with "1.prems" show ?thesis by (simp add: prune.simps [of index K])
  next
    case lt: True
    then have dr: "drop index K = K ! index # drop (Suc index) K"
      by (simp add: Cons_nth_drop_Suc)
    show ?thesis
    proof (cases "fcard (cells (K ! index)) = 0")
      case True
      have "prune index K = prune index (take index K @ drop (Suc index) K)"
        using lt True by (simp add: prune.simps [of index K])
      also have "\<dots> = take index K @ filter (\<lambda>s. cells s \<noteq> {||}) (drop (Suc index) K)"
        using "1.IH"(1) [OF lt True] lt by (simp add: min_def)
      finally show ?thesis using True dr by simp
    next
      case False
      have "prune index K = prune (index + 1) K"
        using lt False by (simp add: prune.simps [of index K])
      also have "\<dots> = take (index + 1) K @ filter (\<lambda>s. cells s \<noteq> {||}) (drop (index + 1) K)"
        using "1.IH"(2) [OF lt False] lt by simp
      finally show ?thesis using False dr lt
        by (simp add: take_Suc_conv_app_nth)
    qed
  qed
qed

lemma prune_filter: "prune 0 K = filter (\<lambda>s. cells s \<noteq> {||}) K"
  using prune_filter_gen [of 0 K] by simp

text \<open>
  C10. \<^verbatim>\<open>is_subset\<close> is symmetric in its arguments: it holds exactly when the cell set
  with the smaller (or equal) number of cells is contained in the other one. A true
  result therefore does not say that the first argument's cells are contained in the
  second's.
\<close>

theorem is_subset_symmetric:
  "is_subset s1 s2 = is_subset s2 s1
   \<and> is_subset s1 s2 =
       (if fcard (cells s1) \<le> fcard (cells s2) then cells s1 |\<subseteq>| cells s2
        else cells s2 |\<subseteq>| cells s1)
   \<and> (\<exists>a b. is_subset a b \<and> \<not> cells a |\<subseteq>| cells b)"
proof (intro conjI)
  show "is_subset s1 s2 = is_subset s2 s1"
    by (rule is_subset_sym)
  show "is_subset s1 s2 =
       (if fcard (cells s1) \<le> fcard (cells s2) then cells s1 |\<subseteq>| cells s2
        else cells s2 |\<subseteq>| cells s1)"
    by (simp add: is_subset_iff not_less)
  have "is_subset \<lparr>cells = {|(0, 0), (0, 1)|}, count = 1\<rparr> \<lparr>cells = {|(0, 0)|}, count = 1\<rparr>
      \<and> \<not> cells \<lparr>cells = {|(0, 0), (0, 1)|}, count = 1\<rparr>
            |\<subseteq>| cells \<lparr>cells = {|(0, 0)|}, count = (1::int)\<rparr>"
    by (simp add: is_subset_iff fcard_finsert_if)
  then show "\<exists>a b. is_subset a b \<and> \<not> cells a |\<subseteq>| cells b"
    by blast
qed

theorem is_subset_symmetric_witness:
  "is_subset \<lparr>cells = {|(0, 0), (0, 1)|}, count = 1\<rparr> \<lparr>cells = {|(0, 0)|}, count = 1\<rparr>
   \<and> is_subset \<lparr>cells = {|(0, 0)|}, count = 1\<rparr> \<lparr>cells = {|(0, 0), (0, 1)|}, count = 1\<rparr>"
  using is_subset_symmetric
    [of "\<lparr>cells = {|(0, 0), (0, 1)|}, count = 1\<rparr>" "\<lparr>cells = {|(0, 0)|}, count = 1\<rparr>"]
  by (auto simp: fcard_finsert_if)

text \<open>
  C6 as stated fails. A sentence whose count lies in \<open>[0, |cells|]\<close> leaves that range
  when a cell of a sentence with count 0 is marked as a mine, or when a cell of a
  sentence whose cells are all mines is marked safe; and the constructor accepts any
  count.
\<close>

theorem count_in_range_counterexample:
  "count_in_range \<lparr>cells = {|(0, 0)|}, count = 0\<rparr>
   \<and> \<not> count_in_range (sentence_mark_mine (0, 0) \<lparr>cells = {|(0, 0)|}, count = 0\<rparr>)
   \<and> count_in_range \<lparr>cells = {|(0, 0)|}, count = 1\<rparr>
   \<and> \<not> count_in_range (sentence_mark_safe (0, 0) \<lparr>cells = {|(0, 0)|}, count = 1\<rparr>)
   \<and> \<not> count_in_range \<lparr>cells = {||}, count = 5\<rparr>"
  by (simp add: count_in_range_def sentence_mark_mine_def sentence_mark_safe_def
      fcard_finsert_if fcard_fempty)

text \<open>
  C6, amended. For a sentence whose count lies in \<open>[0, |cells|]\<close>, the count is still in
  range after \<^verbatim>\<open>mark_mine(cell)\<close> exactly when the cell is not in the sentence or the count
  was at least 1, and after \<^verbatim>\<open>mark_safe(cell)\<close> exactly when the cell is not in the
  sentence or the count was below the number of cells.
\<close>

theorem count_in_range_marks:
  assumes "count_in_range s"
  shows "(count_in_range (sentence_mark_mine c s) \<longleftrightarrow> c |\<notin>| cells s \<or> 1 \<le> count s)
       \<and> (count_in_range (sentence_mark_safe c s) \<longleftrightarrow>
           c |\<notin>| cells s \<or> count s < int (fcard (cells s)))"
proof -
  have "int (fcard (cells s |-| {|c|})) = int (fcard (cells s)) - 1" if "c |\<in>| cells s"
    using fcard_Suc_fminus1 [OF that] by simp
  with assms show ?thesis
    by (auto simp: count_in_range_def sentence_mark_mine_def sentence_mark_safe_def)
qed

theorem count_in_range_marks_witness:
  "count_in_range \<lparr>cells = {|(0, 0), (0, 1)|}, count = 1\<rparr>
   \<and> count_in_range (sentence_mark_mine (0, 0) \<lparr>cells = {|(0, 0), (0, 1)|}, count = 1\<rparr>)
   \<and> count_in_range (sentence_mark_safe (0, 0) \<lparr>cells = {|(0, 0), (0, 1)|}, count = 1\<rparr>)"
proof -
  have h: "count_in_range \<lparr>cells = {|(0, 0), (0, 1)|}, count = 1\<rparr>"
    by (simp add: count_in_range_def fcard_finsert_if)
  show ?thesis
    using h count_in_range_marks [OF h, of "(0, 0)"] by (simp add: fcard_finsert_if)
qed

lemma sentence_mark_safe_eq:
  "sentence_mark_safe c sen = sen\<lparr>cells := cells sen |-| {|c|}\<rparr>"
  by (simp add: sentence_mark_safe_def)

lemma sentence_mark_mine_eq:
  "sentence_mark_mine c sen =
     sen\<lparr>cells := cells sen |-| {|c|},
         count := count sen - (if c |\<in>| cells sen then 1 else 0)\<rparr>"
  by (simp add: sentence_mark_mine_def)

lemma fold_sentence_mark_safe:
  "fold sentence_mark_safe xs sen = sen\<lparr>cells := cells sen |-| fset_of_list xs\<rparr>"
proof (induction xs arbitrary: sen)
  case Nil
  show ?case by simp
next
  case (Cons x xs)
  have "cells sen |-| {|x|} |-| fset_of_list xs = cells sen |-| fset_of_list (x # xs)"
    by auto
  then show ?case
    unfolding fold_simps Cons.IH by (simp add: sentence_mark_safe_eq)
qed

lemma fold_sentence_mark_mine:
  "distinct xs \<Longrightarrow>
   fold sentence_mark_mine xs sen =
     sen\<lparr>cells := cells sen |-| fset_of_list xs,
         count := count sen - int (fcard (cells sen |\<inter>| fset_of_list xs))\<rparr>"
proof (induction xs arbitrary: sen)
  case Nil
  show ?case by simp
next
  case (Cons x xs)
  have c: "cells sen |-| {|x|} |-| fset_of_list xs = cells sen |-| fset_of_list (x # xs)"
    by auto
  have x: "x |\<notin>| fset_of_list xs"
    using Cons.prems by (simp add: fset_of_list_elem)
  have i: "cells sen |\<inter>| fset_of_list (x # xs) =
      (if x |\<in>| cells sen then finsert x ((cells sen |-| {|x|}) |\<inter>| fset_of_list xs)
       else (cells sen |-| {|x|}) |\<inter>| fset_of_list xs)"
    using x by auto
  have "int (fcard (cells sen |\<inter>| fset_of_list (x # xs))) =
      (if x |\<in>| cells sen then 1 else 0) + int (fcard ((cells sen |-| {|x|}) |\<inter>| fset_of_list xs))"
    unfolding i using x by (simp add: fcard_finsert_if)
  moreover have "distinct xs"
    using Cons.prems by simp
  ultimately show ?case
    unfolding fold_simps Cons.IH [OF \<open>distinct xs\<close>] using c
    by (simp add: sentence_mark_mine_eq)
qed

lemma fold_mark_safe:
  "fold mark_safe xs s =
     s\<lparr>safes := safes s |\<union>| fset_of_list xs,
       knowledge := map (fold sentence_mark_safe xs) (knowledge s)\<rparr>"
proof (induction xs arbitrary: s)
  case Nil
  show ?case by simp
next
  case (Cons x xs)
  have "finsert x (safes s) |\<union>| fset_of_list xs = safes s |\<union>| fset_of_list (x # xs)"
    by auto
  then show ?case
    unfolding fold_simps Cons.IH by (simp add: mark_safe_def comp_def)
qed

lemma fold_mark_mine:
  "fold mark_mine xs s =
     s\<lparr>mines := mines s |\<union>| fset_of_list xs,
       knowledge := map (fold sentence_mark_mine xs) (knowledge s)\<rparr>"
proof (induction xs arbitrary: s)
  case Nil
  show ?case by simp
next
  case (Cons x xs)
  have "finsert x (mines s) |\<union>| fset_of_list xs = mines s |\<union>| fset_of_list (x # xs)"
    by auto
  then show ?case
    unfolding fold_simps Cons.IH by (simp add: mark_mine_def comp_def)
qed

text \<open>Iteration order over a Python set does not matter for the marking loops.\<close>

lemma mark_safe_order_irrelevant:
  "fset_of_list xs = S \<Longrightarrow> fold mark_safe xs s = fold mark_safe (sorted_list_of_fset S) s"
  by (simp add: fold_mark_safe fold_sentence_mark_safe)

lemma mark_mine_order_irrelevant:
  "distinct xs \<Longrightarrow> fset_of_list xs = S \<Longrightarrow>
   fold mark_mine xs s = fold mark_mine (sorted_list_of_fset S) s"
  by (simp add: fold_mark_mine fold_sentence_mark_mine distinct_sorted_list_of_fset)

lemma collect_safes_fold:
  "c |\<in>| fold (\<lambda>sentence acc. acc |\<union>| known_safes sentence) K A \<longleftrightarrow>
     c |\<in>| A \<or> (\<exists>sen \<in> set K. c |\<in>| known_safes sen)"
  by (induction K arbitrary: A) auto

lemma collect_mines_fold:
  "c |\<in>| fold (\<lambda>sentence acc. acc |\<union>| known_mines sentence) K A \<longleftrightarrow>
     c |\<in>| A \<or> (\<exists>sen \<in> set K. c |\<in>| known_mines sen)"
  by (induction K arbitrary: A) auto

lemma collect_safes_iff:
  "c |\<in>| collect_safes K \<longleftrightarrow> (\<exists>sen \<in> set K. c |\<in>| known_safes sen)"
  by (simp add: collect_safes_def collect_safes_fold)

lemma collect_mines_iff:
  "c |\<in>| collect_mines K \<longleftrightarrow> (\<exists>sen \<in> set K. c |\<in>| known_mines sen)"
  by (simp add: collect_mines_def collect_mines_fold)

lemma upto3: "[i - 1 .. i + 1] = [i - 1, i, i + (1::int)]"
  by (simp add: upto.simps)

lemma window_eq:
  "window (r, c) =
     [(r - 1, c - 1), (r - 1, c), (r - 1, c + 1),
      (r, c - 1), (r, c), (r, c + 1),
      (r + 1, c - 1), (r + 1, c), (r + 1, c + 1)]"
  by (simp add: window_def upto3)

lemma distinct_window: "distinct (window cell)"
  by (cases cell) (simp add: window_eq)

lemma set_window:
  "n \<in> set (window cell) \<longleftrightarrow>
     fst cell - 1 \<le> fst n \<and> fst n \<le> fst cell + 1 \<and> snd cell - 1 \<le> snd n \<and> snd n \<le> snd cell + 1"
  by (cases n) (auto simp: window_def image_iff)

lemma chebyshev_window:
  "chebyshev n cell = 1 \<longleftrightarrow> n \<in> set (window cell) \<and> n \<noteq> cell"
proof -
  obtain a b r c where n: "n = (a, b)" and cell: "cell = (r, c)"
    by (cases n, cases cell) blast
  have "max \<bar>a - r\<bar> \<bar>b - c\<bar> = 1 \<longleftrightarrow>
      (r - 1 \<le> a \<and> a \<le> r + 1 \<and> c - 1 \<le> b \<and> b \<le> c + 1) \<and> \<not> (a = r \<and> b = c)"
    by arith
  then show ?thesis
    by (simp add: n cell chebyshev_def set_window)
qed

lemma fold_neighbor_step:
  "distinct xs \<Longrightarrow>
   fold (neighbor_step s cell) xs (cs, k) =
     (cs |\<union>| ffilter (\<lambda>n. n \<noteq> cell \<and> in_bounds s n \<and> n |\<notin>| mines s \<and> n |\<notin>| safes s)
                     (fset_of_list xs),
      k - int (fcard (ffilter (\<lambda>n. n \<noteq> cell \<and> in_bounds s n \<and> n |\<in>| mines s)
                     (fset_of_list xs))))"
proof (induction xs arbitrary: cs k)
  case Nil
  have "ffilter P {||} = {||}" for P :: "cell \<Rightarrow> bool"
    by auto
  then show ?case by (simp add: fcard_fempty)
next
  case (Cons x xs)
  let ?U = "\<lambda>n. n \<noteq> cell \<and> in_bounds s n \<and> n |\<notin>| mines s \<and> n |\<notin>| safes s"
  let ?M = "\<lambda>n. n \<noteq> cell \<and> in_bounds s n \<and> n |\<in>| mines s"
  have d: "distinct xs" and x: "x |\<notin>| fset_of_list xs"
    using Cons.prems by (simp_all add: fset_of_list_elem)
  have step: "neighbor_step s cell x (cs, k) =
      (if ?U x then finsert x cs else cs, if ?M x then k - 1 else k)"
    by (cases x) (auto simp: neighbor_step_def in_bounds_def Let_def)
  have u: "(if ?U x then finsert x cs else cs) |\<union>| ffilter ?U (fset_of_list xs) =
      cs |\<union>| ffilter ?U (fset_of_list (x # xs))"
    by auto
  have "ffilter ?M (fset_of_list (x # xs)) =
      (if ?M x then finsert x (ffilter ?M (fset_of_list xs)) else ffilter ?M (fset_of_list xs))"
    by auto
  then have m: "int (fcard (ffilter ?M (fset_of_list (x # xs)))) =
      (if ?M x then 1 else 0) + int (fcard (ffilter ?M (fset_of_list xs)))"
    using x by (simp add: fcard_finsert_if)
  show ?case
    unfolding fold_simps step Cons.IH [OF d] u m by simp
qed

text \<open>
  C3. \<^verbatim>\<open>add_knowledge(cell, count)\<close> first adds the cell to \<^verbatim>\<open>moves_made\<close> and marks it
  safe, then appends one sentence and only then runs the inference loop. The cells of
  that sentence are the in-bounds cells at Chebyshev distance 1 from the cell that are
  neither confirmed mines nor confirmed safes, and its count is the given count minus
  the number of in-bounds neighbours that are confirmed mines.
\<close>

theorem add_sentence_spec:
  "add_knowledge s cell cnt = inference_loop (add_sentence s cell cnt)
   \<and> moves_made (add_sentence s cell cnt) = finsert cell (moves_made s)
   \<and> safes (add_sentence s cell cnt) = finsert cell (safes s)
   \<and> mines (add_sentence s cell cnt) = mines s
   \<and> knowledge (add_sentence s cell cnt) =
       map (sentence_mark_safe cell) (knowledge s) @ [last (knowledge (add_sentence s cell cnt))]
   \<and> fset (cells (last (knowledge (add_sentence s cell cnt)))) =
       {n. in_bounds s n \<and> chebyshev n cell = 1 \<and> n |\<notin>| mines s \<and> n |\<notin>| safes s}
   \<and> count (last (knowledge (add_sentence s cell cnt))) =
       cnt - int (card {n. in_bounds s n \<and> chebyshev n cell = 1 \<and> n |\<in>| mines s})"
proof -
  define s1 where "s1 = mark_safe cell (s\<lparr>moves_made := finsert cell (moves_made s)\<rparr>)"
  define cs where "cs = ffilter (\<lambda>n. n \<noteq> cell \<and> in_bounds s1 n \<and> n |\<notin>| mines s1 \<and> n |\<notin>| safes s1)
                     (fset_of_list (window cell))"
  define k where "k = cnt - int (fcard (ffilter (\<lambda>n. n \<noteq> cell \<and> in_bounds s1 n \<and> n |\<in>| mines s1)
                     (fset_of_list (window cell))))"
  have f: "fold (neighbor_step s1 cell) (window cell) ({||}, cnt) = (cs, k)"
    by (simp add: fold_neighbor_step [OF distinct_window] cs_def k_def)
  have a: "add_sentence s cell cnt = s1\<lparr>knowledge := knowledge s1 @ [\<lparr>cells = cs, count = k\<rparr>]\<rparr>"
    using f by (simp add: add_sentence_def s1_def [symmetric])
  have s1: "moves_made s1 = finsert cell (moves_made s)" "safes s1 = finsert cell (safes s)"
    "mines s1 = mines s" "knowledge s1 = map (sentence_mark_safe cell) (knowledge s)"
    "in_bounds s1 = in_bounds s"
    by (auto simp: s1_def mark_safe_def in_bounds_def fun_eq_iff)
  have c1: "fset cs = {n. in_bounds s n \<and> chebyshev n cell = 1 \<and> n |\<notin>| mines s \<and> n |\<notin>| safes s}"
    by (auto simp: cs_def s1 chebyshev_window fset_of_list_elem)
  have "fset (ffilter (\<lambda>n. n \<noteq> cell \<and> in_bounds s1 n \<and> n |\<in>| mines s1) (fset_of_list (window cell)))
      = {n. in_bounds s n \<and> chebyshev n cell = 1 \<and> n |\<in>| mines s}"
    by (auto simp: s1 chebyshev_window fset_of_list_elem)
  then have c2: "k = cnt - int (card {n. in_bounds s n \<and> chebyshev n cell = 1 \<and> n |\<in>| mines s})"
    by (simp add: k_def fcard.rep_eq)
  show ?thesis
    using c1 c2 by (simp add: a s1 add_knowledge_def)
qed

theorem add_sentence_spec_witness:
  "{n. in_bounds \<lparr>height = 2, width = 2, moves_made = {||}, mines = {|(0, 1)|},
                  safes = {|(1, 0)|}, knowledge = []\<rparr> n
       \<and> chebyshev n (0, 0) = 1 \<and> n |\<notin>| {|(0, 1)|} \<and> n |\<notin>| {|(1, 0)|}} = {(1, 1)}
   \<and> 2 - int (card {n. in_bounds \<lparr>height = 2, width = 2, moves_made = {||}, mines = {|(0, 1)|},
                  safes = {|(1, 0)|}, knowledge = []\<rparr> n
       \<and> chebyshev n (0, 0) = 1 \<and> n |\<in>| {|(0, 1)|}}) = 1"
proof -
  have "knowledge (add_sentence
       \<lparr>height = 2, width = 2, moves_made = {||}, mines = {|(0, 1)|}, safes = {|(1, 0)|},
        knowledge = []\<rparr> (0, 0) 2) = [\<lparr>cells = {|(1, 1)|}, count = 1\<rparr>]"
    by code_simp
  then show ?thesis
    using add_sentence_spec [of "\<lparr>height = 2, width = 2, moves_made = {||}, mines = {|(0, 1)|},
        safes = {|(1, 0)|}, knowledge = []\<rparr>" "(0, 0)" 2]
    by simp
qed

lemma subset_body:
  fixes f :: "nat \<Rightarrow> nat \<Rightarrow> sentence list \<Rightarrow> bool \<Rightarrow> (error + sentence list \<times> bool) option"
  shows "(if i < length K then
        (if j < length K then
           (let sentence1 = K ! i; sentence2 = K ! j
            in if cells sentence2 = cells sentence1 then f i (j + 1) K changed
               else if is_subset sentence1 sentence2 then
                 (case subtract sentence1 sentence2 of
                    Inl e \<Rightarrow> Some (Inl e)
                  | Inr new_sentence \<Rightarrow>
                      if new_sentence \<notin> set K
                      then f i (j + 1) (K @ [new_sentence]) True
                      else f i (j + 1) K changed)
               else f i (j + 1) K changed)
         else f (i + 1) 0 K changed)
      else Some (Inr (K, changed))) =
     (if i < length K then
        (if j < length K
         then f i (j + 1) (K @ appended K (K ! i) (K ! j)) (changed \<or> appended K (K ! i) (K ! j) \<noteq> [])
         else f (i + 1) 0 K changed)
      else Some (Inr (K, changed)))"
proof -
  define a where "a = K ! i"
  define b where "b = K ! j"
  have eq: "(if cells b = cells a then f i (j + 1) K changed
         else if is_subset a b then
                 (case subtract a b of
                    Inl e \<Rightarrow> Some (Inl e)
                  | Inr new_sentence \<Rightarrow>
                      if new_sentence \<notin> set K
                      then f i (j + 1) (K @ [new_sentence]) True
                      else f i (j + 1) K changed)
               else f i (j + 1) K changed)
      = f i (j + 1) (K @ appended K a b) (changed \<or> appended K a b \<noteq> [])"
  proof (cases "cells b = cells a")
    case True
    then show ?thesis by (simp add: appended_def)
  next
    case ne: False
    consider "cells a |\<subset>| cells b" | "cells b |\<subset>| cells a" | "\<not> is_subset a b"
      using is_subset_strict [of a b] ne by auto
    then show ?thesis
    proof cases
      case 1
      then have "is_subset a b" "\<not> cells b |\<subset>| cells a"
        using is_subset_strict [of a b] ne by auto
      with 1 ne show ?thesis
        by (simp add: subtract_fsubset(1) appended_def)
    next
      case 2
      then have "is_subset a b" "\<not> cells a |\<subset>| cells b"
        using is_subset_strict [of a b] ne by auto
      with 2 ne show ?thesis
        by (simp add: subtract_fsubset(2) appended_def)
    next
      case 3
      then have "\<not> cells a |\<subset>| cells b" "\<not> cells b |\<subset>| cells a"
        using is_subset_strict [of a b] ne by auto
      with 3 ne show ?thesis
        by (simp add: appended_def)
    qed
  qed
  show ?thesis
    unfolding Let_def eq [unfolded a_def b_def] by (rule refl)
qed


lemma pair_done_mono: "pair_done K a b \<Longrightarrow> set K \<subseteq> set K' \<Longrightarrow> pair_done K' a b"
  by (auto simp: pair_done_def)

lemma pair_done_appended: "pair_done (K @ appended K a b) a b"
  by (auto simp: pair_done_def appended_def)

lemma visited_step:
  assumes "visited i j K" "i < length K" "j < length K"
  shows "visited i (j + 1) (K @ appended K (K ! i) (K ! j))"
  unfolding visited_def
proof (intro allI impI)
  fix p q
  let ?K' = "K @ appended K (K ! i) (K ! j)"
  assume h: "q \<le> p \<and> p < length ?K' \<and> (p < i \<or> p = i \<and> q < j + 1)"
  then have p: "p < length K" "q < length K" "p \<le> i"
    using assms(2) by auto
  then have n: "?K' ! p = K ! p" "?K' ! q = K ! q"
    by (simp_all add: nth_append)
  show "pair_done ?K' (?K' ! p) (?K' ! q)"
  proof (cases "p = i \<and> q = j")
    case True
    then show ?thesis unfolding n by (simp add: pair_done_appended)
  next
    case False
    then have "pair_done K (K ! p) (K ! q)"
      using assms(1) h p unfolding visited_def by auto
    then show ?thesis unfolding n by (rule pair_done_mono) auto
  qed
qed

lemma visited_next:
  assumes "visited i j K" "i < length K" "\<not> j < length K"
  shows "visited (i + 1) 0 K"
  using assms unfolding visited_def by (auto simp: less_Suc_eq)

lemma visited_closed:
  assumes "visited i j K" "\<not> i < length K"
  shows "closed K"
  unfolding closed_def
proof (intro ballI impI)
  fix a b
  assume "a \<in> set K" "b \<in> set K" and ab: "cells a |\<subset>| cells b"
  then obtain p q where pq: "p < length K" "q < length K" "a = K ! p" "b = K ! q"
    by (auto simp: in_set_conv_nth)
  have "pair_done K (K ! p) (K ! q)"
  proof (cases "q \<le> p")
    case True
    then show ?thesis using assms pq unfolding visited_def by auto
  next
    case False
    then have "pair_done K (K ! q) (K ! p)"
      using assms pq unfolding visited_def by auto
    then show ?thesis by (auto simp: pair_done_def)
  qed
  then show "derived b a \<in> set K"
    using ab pq by (simp add: pair_done_def)
qed

lemma subset_loop_partial:
  assumes run: "subset_loop i j K ch = Some r"
    and vis: "visited i j K"
    and Q: "\<forall>s \<in> set K. Q s"
    and step: "\<And>a b. Q a \<Longrightarrow> Q b \<Longrightarrow> cells a |\<subset>| cells b \<Longrightarrow> Q (derived b a)"
  shows "\<exists>N. r = Inr (K @ N, ch \<or> N \<noteq> []) \<and> closed (K @ N) \<and> distinct N
             \<and> set N \<inter> set K = {} \<and> (\<forall>s \<in> set N. Q s)"
proof -
  have "visited i j K \<longrightarrow> (\<forall>s \<in> set K. Q s) \<longrightarrow>
      (\<exists>N. r = Inr (K @ N, ch \<or> N \<noteq> []) \<and> closed (K @ N) \<and> distinct N
             \<and> set N \<inter> set K = {} \<and> (\<forall>s \<in> set N. Q s))"
    using run
  proof (induction i j K ch r rule: subset_loop.raw_induct [rotated 1, consumes 1])
    case (1 f i j K ch r)
    note body = "1.hyps" [unfolded subset_body]
    show ?case
    proof (intro impI)
      assume vis: "visited i j K" and Q: "\<forall>s \<in> set K. Q s"
      show "\<exists>N. r = Inr (K @ N, ch \<or> N \<noteq> []) \<and> closed (K @ N) \<and> distinct N
             \<and> set N \<inter> set K = {} \<and> (\<forall>s \<in> set N. Q s)"
      proof (cases "i < length K")
        case False
        then have "r = Inr (K, ch)" using body by simp
        moreover have "closed K" using vis False by (rule visited_closed)
        ultimately show ?thesis by (intro exI [of _ "[]"]) simp
      next
        case i: True
        show ?thesis
        proof (cases "j < length K")
          case False
          then have "f (i + 1) 0 K ch = Some r" using body i by simp
          moreover have "visited (i + 1) 0 K" using vis i False by (rule visited_next)
          ultimately show ?thesis using "1.IH" Q by blast
        next
          case j: True
          define A where "A = appended K (K ! i) (K ! j)"
          have run': "f i (j + 1) (K @ A) (ch \<or> A \<noteq> []) = Some r"
            using body i j by (simp add: A_def)
          have vis': "visited i (j + 1) (K @ A)"
            unfolding A_def using vis i j by (rule visited_step)
          have QA: "\<forall>s \<in> set A. Q s"
            using Q i j step by (auto simp: A_def appended_def)
          then have "\<forall>s \<in> set (K @ A). Q s" using Q by auto
          with "1.IH" [OF run'] vis' obtain N where N:
            "r = Inr ((K @ A) @ N, (ch \<or> A \<noteq> []) \<or> N \<noteq> [])" "closed ((K @ A) @ N)"
            "distinct N" "set N \<inter> set (K @ A) = {}" "\<forall>s \<in> set N. Q s"
            by blast
          have A: "distinct A" "set A \<inter> set K = {}"
            by (auto simp: A_def appended_def)
          show ?thesis
            using N A QA by (intro exI [of _ "A @ N"]) auto
        qed
      qed
    qed
  qed
  with vis Q show ?thesis by blast
qed

lemma visited_start: "visited 0 0 K"
  by (simp add: visited_def)



lemma sorted_list_of_fset_empty: "sorted_list_of_fset {||} = ([] :: cell list)"
  by (simp add: sorted_list_of_fset.rep_eq)

lemma fcard_pos_iff: "0 < fcard A \<longleftrightarrow> A \<noteq> {||}"
  using fcard_0_eq [of A] by linarith

lemma marks_eq:
  "(let safes' = collect_safes (knowledge s);
        mines' = collect_mines (knowledge s);
        s1 = (if fcard safes' > 0 then fold mark_safe (sorted_list_of_fset safes') s else s)
    in if fcard mines' > 0 then fold mark_mine (sorted_list_of_fset mines') s1 else s1)
   = marked s"
proof -
  define S where "S = collect_safes (knowledge s)"
  define M where "M = collect_mines (knowledge s)"
  define s1 where "s1 = (if fcard S > 0 then fold mark_safe (sorted_list_of_fset S) s else s)"
  have "s1 = fold mark_safe (sorted_list_of_fset S) s"
    by (cases "S = {||}") (simp_all add: s1_def sorted_list_of_fset_empty fcard_pos_iff)
  then have s1: "s1 = s\<lparr>safes := safes s |\<union>| S,
       knowledge := map (\<lambda>sen. sen\<lparr>cells := cells sen |-| S\<rparr>) (knowledge s)\<rparr>"
    by (simp add: fold_mark_safe fold_sentence_mark_safe)
  have "(if fcard M > 0 then fold mark_mine (sorted_list_of_fset M) s1 else s1)
      = fold mark_mine (sorted_list_of_fset M) s1"
    by (cases "M = {||}") (simp_all add: sorted_list_of_fset_empty fcard_pos_iff)
  also have "\<dots> = s1\<lparr>mines := mines s1 |\<union>| M,
       knowledge := map (\<lambda>sen. sen\<lparr>cells := cells sen |-| M,
           count := count sen - int (fcard (cells sen |\<inter>| M))\<rparr>) (knowledge s1)\<rparr>"
    by (simp add: fold_mark_mine fold_sentence_mark_mine distinct_sorted_list_of_fset)
  also have "\<dots> = marked s"
    by (simp add: s1 marked_def Let_def S_def M_def comp_def)
  finally show ?thesis
    unfolding Let_def S_def M_def s1_def .
qed

lemma inference_pass_eq:
  "inference_pass s =
     (case subset_loop 0 0 (filter (\<lambda>sen. cells sen \<noteq> {||}) (knowledge (marked s))) (progress s) of
        None \<Rightarrow> None
      | Some (Inl e) \<Rightarrow> Some (Inl e)
      | Some (Inr (K, changed)) \<Rightarrow> Some (Inr ((marked s)\<lparr>knowledge := K\<rparr>, changed)))"
proof -
  have p: "(fcard (collect_safes (knowledge s)) > 0 \<or> fcard (collect_mines (knowledge s)) > 0)
      = progress s"
    by (simp add: progress_def fcard_pos_iff)
  show ?thesis
    unfolding inference_pass_def Let_def p marks_eq [unfolded Let_def] prune_filter ..
qed

lemma fcard_inter_split:
  assumes "B |\<subseteq>| A"
  shows "int (fcard ((A |-| B) |\<inter>| M)) = int (fcard (A |\<inter>| M)) - int (fcard (B |\<inter>| M))"
proof -
  have "A |\<inter>| M = ((A |-| B) |\<inter>| M) |\<union>| (B |\<inter>| M)"
    using assms by auto
  moreover have "((A |-| B) |\<inter>| M) |\<inter>| (B |\<inter>| M) = {||}"
    by auto
  ultimately have "fcard (A |\<inter>| M) = fcard ((A |-| B) |\<inter>| M) + fcard (B |\<inter>| M)"
    using fcard_funion_disjoint by metis
  then show ?thesis by simp
qed

lemma holds_known_safes: "holds g sen \<Longrightarrow> known_safes sen |\<inter>| board_mines g = {||}"
  by (auto simp: holds_def known_safes_def)

lemma holds_known_mines:
  assumes "holds g sen"
  shows "known_mines sen |\<subseteq>| board_mines g"
proof (cases "int (fcard (cells sen)) = count sen \<and> count sen \<noteq> 0")
  case True
  then have "fcard (cells sen) \<le> fcard (cells sen |\<inter>| board_mines g)"
    using assms by (simp add: holds_def)
  then have "cells sen |\<inter>| board_mines g = cells sen"
    by (intro fcard_seteq) auto
  then show ?thesis using True by (auto simp: known_mines_def)
next
  case False
  then show ?thesis by (auto simp: known_mines_def Let_def)
qed

lemma collect_safes_sound:
  "\<forall>sen \<in> set K. holds g sen \<Longrightarrow> collect_safes K |\<inter>| board_mines g = {||}"
  using holds_known_safes by (fastforce simp: collect_safes_iff fset_eq_iff)

lemma collect_mines_sound:
  "\<forall>sen \<in> set K. holds g sen \<Longrightarrow> collect_mines K |\<subseteq>| board_mines g"
  using holds_known_mines by (fastforce simp: collect_mines_iff)

lemma holds_marked:
  assumes "holds g sen" "S |\<inter>| board_mines g = {||}" "Mk |\<subseteq>| board_mines g"
  shows "holds g \<lparr>cells = cells sen |-| S |-| Mk,
                  count = count sen - int (fcard ((cells sen |-| S) |\<inter>| Mk))\<rparr>"
proof -
  let ?M = "board_mines g"
  let ?A = "cells sen |-| S"
  have a: "?A |\<inter>| ?M = cells sen |\<inter>| ?M"
    using assms(2) by auto
  have b: "(?A |\<inter>| Mk) |\<inter>| ?M = ?A |\<inter>| Mk"
    using assms(3) by auto
  have c: "?A |-| Mk = ?A |-| (?A |\<inter>| Mk)"
    by auto
  have "int (fcard ((?A |-| (?A |\<inter>| Mk)) |\<inter>| ?M)) =
      int (fcard (?A |\<inter>| ?M)) - int (fcard ((?A |\<inter>| Mk) |\<inter>| ?M))"
    by (rule fcard_inter_split) auto
  then show ?thesis
    using assms(1) unfolding holds_def a b c [symmetric] by simp
qed

lemma consistent_marked:
  assumes "consistent g s"
  shows "consistent g (marked s)"
proof -
  have h: "\<forall>sen \<in> set (knowledge s). holds g sen"
    using assms by (simp add: consistent_def)
  note S = collect_safes_sound [OF h] and M = collect_mines_sound [OF h]
  have "safes s |\<inter>| board_mines g = {||}" "mines s |\<subseteq>| board_mines g"
    using assms by (simp_all add: consistent_def)
  then have "(safes s |\<union>| collect_safes (knowledge s)) |\<inter>| board_mines g = {||}"
    "mines s |\<union>| collect_mines (knowledge s) |\<subseteq>| board_mines g"
    using S M by auto
  then show ?thesis
    using assms h holds_marked [OF _ S M]
    by (simp add: consistent_def marked_def Let_def)
qed

lemma holds_derived:
  assumes "holds g a" "holds g b" "cells a |\<subset>| cells b"
  shows "holds g (derived b a)"
  using assms fcard_inter_split [of "cells a" "cells b" "board_mines g"]
  by (auto simp: holds_def derived_def)

lemma inference_pass_sound:
  assumes "consistent g s" "inference_pass s = Some r"
  shows "\<exists>s' ch. r = Inr (s', ch) \<and> consistent g s'"
proof -
  let ?K = "filter (\<lambda>sen. cells sen \<noteq> {||}) (knowledge (marked s))"
  note m = consistent_marked [OF assms(1)]
  obtain r' where r': "subset_loop 0 0 ?K (progress s) = Some r'"
    using assms(2) unfolding inference_pass_eq by (auto split: option.splits)
  have "\<forall>sen \<in> set ?K. holds g sen"
    using m by (simp add: consistent_def)
  from subset_loop_partial [OF r' visited_start this holds_derived]
  obtain N where N: "r' = Inr (?K @ N, progress s \<or> N \<noteq> [])" "\<forall>sen \<in> set N. holds g sen"
    by blast
  have "r = Inr ((marked s)\<lparr>knowledge := ?K @ N\<rparr>, progress s \<or> N \<noteq> [])"
    using assms(2) r' N(1) unfolding inference_pass_eq by simp
  moreover have "consistent g ((marked s)\<lparr>knowledge := ?K @ N\<rparr>)"
    using m N(2) by (auto simp: consistent_def)
  ultimately show ?thesis by blast
qed

lemma inference_loop_sound:
  assumes "inference_loop s = Some r" "consistent g s"
  shows "\<exists>s'. r = Inr s' \<and> consistent g s'"
proof -
  have "consistent g s \<longrightarrow> (\<exists>s'. r = Inr s' \<and> consistent g s')"
    using assms(1)
  proof (induction s r rule: inference_loop.raw_induct [rotated 1, consumes 1])
    case (1 f s r)
    show ?case
    proof
      assume c: "consistent g s"
      obtain p where p: "inference_pass s = Some p"
        using "1.hyps" by (auto split: option.splits)
      from inference_pass_sound [OF c p] obtain s' ch where
        s': "p = Inr (s', ch)" "consistent g s'"
        by blast
      show "\<exists>s'. r = Inr s' \<and> consistent g s'"
      proof (cases ch)
        case True
        then have "f s' = Some r" using "1.hyps" p s' by simp
        with "1.IH" s' show ?thesis by blast
      next
        case False
        then have "r = Inr s'" using "1.hyps" p s' by simp
        with s' show ?thesis by blast
      qed
    qed
  qed
  with assms(2) show ?thesis by blast
qed

lemma nearby_mines_fold:
  "distinct xs \<Longrightarrow>
   fold (\<lambda>(i, j) cnt.
             if (i, j) = cell then cnt
             else if 0 \<le> i \<and> i < board_height g \<and> 0 \<le> j \<and> j < board_width g
               then (if (i, j) |\<in>| board_mines g then cnt + 1 else cnt)
               else cnt) xs k
   = k + int (fcard (ffilter (\<lambda>n. n \<noteq> cell \<and> 0 \<le> fst n \<and> fst n < board_height g
                 \<and> 0 \<le> snd n \<and> snd n < board_width g \<and> n |\<in>| board_mines g) (fset_of_list xs)))"
proof (induction xs arbitrary: k)
  case Nil
  have "ffilter P {||} = {||}" for P :: "cell \<Rightarrow> bool"
    by auto
  then show ?case by (simp add: fcard_fempty)
next
  case (Cons x xs)
  let ?P = "\<lambda>n. n \<noteq> cell \<and> 0 \<le> fst n \<and> fst n < board_height g
                 \<and> 0 \<le> snd n \<and> snd n < board_width g \<and> n |\<in>| board_mines g"
  have d: "distinct xs" and x: "x |\<notin>| fset_of_list xs"
    using Cons.prems by (simp_all add: fset_of_list_elem)
  have "ffilter ?P (fset_of_list (x # xs)) =
      (if ?P x then finsert x (ffilter ?P (fset_of_list xs)) else ffilter ?P (fset_of_list xs))"
    by auto
  then have m: "int (fcard (ffilter ?P (fset_of_list (x # xs)))) =
      (if ?P x then 1 else 0) + int (fcard (ffilter ?P (fset_of_list xs)))"
    using x by (simp add: fcard_finsert_if)
  show ?case
    unfolding fold_simps Cons.IH [OF d] m by (cases x) auto
qed

lemma nearby_mines_eq:
  "nearby_mines g cell =
     int (fcard (ffilter (\<lambda>n. n \<noteq> cell \<and> 0 \<le> fst n \<and> fst n < board_height g
                 \<and> 0 \<le> snd n \<and> snd n < board_width g \<and> n |\<in>| board_mines g)
            (fset_of_list (window cell))))"
  unfolding nearby_mines_def by (simp add: nearby_mines_fold [OF distinct_window])

lemma add_sentence_sound:
  assumes "consistent g s" "cell |\<notin>| board_mines g"
  shows "consistent g (add_sentence s cell (nearby_mines g cell))"
proof -
  let ?M = "board_mines g"
  let ?W = "fset_of_list (window cell)"
  define s1 where "s1 = mark_safe cell (s\<lparr>moves_made := finsert cell (moves_made s)\<rparr>)"
  define U where "U = ffilter (\<lambda>n. n \<noteq> cell \<and> in_bounds s1 n \<and> n |\<notin>| mines s1 \<and> n |\<notin>| safes s1) ?W"
  define D where "D = ffilter (\<lambda>n. n \<noteq> cell \<and> in_bounds s1 n \<and> n |\<in>| mines s1) ?W"
  define A where "A = ffilter (\<lambda>n. n \<noteq> cell \<and> in_bounds s1 n \<and> n |\<in>| ?M) ?W"
  have s1: "moves_made s1 = finsert cell (moves_made s)" "safes s1 = finsert cell (safes s)"
    "mines s1 = mines s" "knowledge s1 = map (sentence_mark_safe cell) (knowledge s)"
    "height s1 = height s" "width s1 = width s"
    by (simp_all add: s1_def mark_safe_def)
  have c: "height s = board_height g" "width s = board_width g"
    "safes s |\<inter>| ?M = {||}" "mines s |\<subseteq>| ?M" "\<forall>sen \<in> set (knowledge s). holds g sen"
    using assms(1) by (simp_all add: consistent_def)
  have nm: "nearby_mines g cell = int (fcard A)"
    unfolding nearby_mines_eq A_def in_bounds_def s1 c by (simp add: conj_assoc)
  have f: "fold (neighbor_step s1 cell) (window cell) ({||}, nearby_mines g cell)
      = (U, int (fcard A) - int (fcard D))"
    by (simp add: fold_neighbor_step [OF distinct_window] U_def D_def nm)
  have a: "add_sentence s cell (nearby_mines g cell) =
      s1\<lparr>knowledge := knowledge s1 @ [\<lparr>cells = U, count = int (fcard A) - int (fcard D)\<rparr>]\<rparr>"
    using f by (simp add: add_sentence_def s1_def [symmetric])
  have "A = (U |\<inter>| ?M) |\<union>| D"
    using c(3,4) assms(2) by (auto simp: A_def U_def D_def s1)
  moreover have "(U |\<inter>| ?M) |\<inter>| D = {||}"
    by (auto simp: U_def D_def)
  ultimately have "fcard A = fcard (U |\<inter>| ?M) + fcard D"
    using fcard_funion_disjoint by metis
  then have new: "holds g \<lparr>cells = U, count = int (fcard A) - int (fcard D)\<rparr>"
    by (simp add: holds_def)
  have old: "holds g (sentence_mark_safe cell sen)" if "holds g sen" for sen
  proof -
    have "(cells sen |-| {|cell|}) |\<inter>| ?M = cells sen |\<inter>| ?M"
      using assms(2) by auto
    then show ?thesis
      using that by (simp add: holds_def sentence_mark_safe_eq)
  qed
  have "finsert cell (safes s) |\<inter>| ?M = {||}"
    using c(3) assms(2) by auto
  then show ?thesis
    using c new old by (auto simp: a s1 consistent_def)
qed

text \<open>
  C1 as stated fails. On a 2 by 2 board, after the observations \<open>(0,0) \<mapsto> 1\<close> and
  \<open>(0,1) \<mapsto> 1\<close> the confirmed sets are disjoint; the observation \<open>(1,0) \<mapsto> 0\<close>, which
  no board can give after the first two, then puts the cell \<open>(1,1)\<close> into both sets.
\<close>

theorem safes_mines_disjoint_counterexample:
  "add_knowledge (init_ai 2 2) (0, 0) 1 =
     Some (Inr \<lparr>height = 2, width = 2, moves_made = {|(0, 0)|}, mines = {||},
                safes = {|(0, 0)|},
                knowledge = [\<lparr>cells = {|(0, 1), (1, 0), (1, 1)|}, count = 1\<rparr>]\<rparr>)
   \<and> add_knowledge \<lparr>height = 2, width = 2, moves_made = {|(0, 0)|}, mines = {||},
                safes = {|(0, 0)|},
                knowledge = [\<lparr>cells = {|(0, 1), (1, 0), (1, 1)|}, count = 1\<rparr>]\<rparr> (0, 1) 1 =
     Some (Inr \<lparr>height = 2, width = 2, moves_made = {|(0, 0), (0, 1)|}, mines = {||},
                safes = {|(0, 0), (0, 1)|},
                knowledge = [\<lparr>cells = {|(1, 0), (1, 1)|}, count = 1\<rparr>,
                             \<lparr>cells = {|(1, 0), (1, 1)|}, count = 1\<rparr>]\<rparr>)
   \<and> add_knowledge \<lparr>height = 2, width = 2, moves_made = {|(0, 0), (0, 1)|}, mines = {||},
                safes = {|(0, 0), (0, 1)|},
                knowledge = [\<lparr>cells = {|(1, 0), (1, 1)|}, count = 1\<rparr>,
                             \<lparr>cells = {|(1, 0), (1, 1)|}, count = 1\<rparr>]\<rparr> (1, 0) 0 =
     Some (Inr \<lparr>height = 2, width = 2, moves_made = {|(0, 0), (0, 1), (1, 0)|},
                mines = {|(1, 1)|}, safes = {|(0, 0), (0, 1), (1, 0), (1, 1)|},
                knowledge = []\<rparr>)
   \<and> {|(0, 0), (0, 1), (1, 0), (1, 1)|} |\<inter>| {|(1, 1)|} \<noteq> ({||} :: cell fset)"
  by code_simp

text \<open>
  C1, amended. Let the knowledge base agree with a board: same dimensions, no confirmed
  safe cell is a mine of the board, every confirmed mine is one, and the count of every
  sentence is the number of its cells that are mines of the board. Let the call be
  \<^verbatim>\<open>add_knowledge(cell, count)\<close> for a cell that is not a mine, with the count that
  \<^verbatim>\<open>nearby_mines(cell)\<close> gives on that board. Then, when the call completes, it raised
  nothing, the knowledge base agrees with the board again, and the confirmed safe cells
  and the confirmed mines are disjoint.
\<close>

theorem safes_mines_disjoint:
  assumes "consistent g s" "cell |\<notin>| board_mines g"
    and "add_knowledge s cell (nearby_mines g cell) = Some r"
  shows "\<exists>s'. r = Inr s' \<and> consistent g s' \<and> safes s' |\<inter>| mines s' = {||}"
proof -
  have "consistent g (add_sentence s cell (nearby_mines g cell))"
    using assms(1,2) by (rule add_sentence_sound)
  with assms(3) obtain s' where s': "r = Inr s'" "consistent g s'"
    unfolding add_knowledge_def using inference_loop_sound by blast
  then have "safes s' |\<inter>| mines s' = {||}"
    by (auto simp: consistent_def)
  with s' show ?thesis by blast
qed

theorem safes_mines_disjoint_witness:
  "consistent \<lparr>board_height = 1, board_width = 3, board_mines = {|(0, 2)|}\<rparr>
     \<lparr>height = 1, width = 3, moves_made = {|(0, 0)|}, mines = {||},
      safes = {|(0, 1), (0, 0)|}, knowledge = []\<rparr>
   \<and> (0, 1) |\<notin>| board_mines \<lparr>board_height = 1, board_width = 3, board_mines = {|(0, 2)|}\<rparr>
   \<and> (\<exists>s'. add_knowledge \<lparr>height = 1, width = 3, moves_made = {|(0, 0)|}, mines = {||},
             safes = {|(0, 1), (0, 0)|}, knowledge = []\<rparr> (0, 1)
             (nearby_mines \<lparr>board_height = 1, board_width = 3, board_mines = {|(0, 2)|}\<rparr> (0, 1))
           = Some (Inr s')
         \<and> mines s' = {|(0, 2)|} \<and> safes s' |\<inter>| mines s' = {||})"
proof -
  let ?g = "\<lparr>board_height = 1, board_width = 3, board_mines = {|(0, 2)|}\<rparr>"
  let ?s = "\<lparr>height = 1, width = 3, moves_made = {|(0, 0)|}, mines = {||},
      safes = {|(0, 1), (0, 0)|}, knowledge = []\<rparr>"
  have c: "consistent ?g ?s"
    by code_simp
  have m: "(0, 1) |\<notin>| board_mines ?g"
    by simp
  have run: "add_knowledge ?s (0, 1) (nearby_mines ?g (0, 1)) =
      Some (Inr \<lparr>height = 1, width = 3, moves_made = {|(0, 1), (0, 0)|}, mines = {|(0, 2)|},
                 safes = {|(0, 1), (0, 0)|}, knowledge = []\<rparr>)"
    by code_simp
  from safes_mines_disjoint [OF c m run] c m run show ?thesis
    by auto
qed
























lemma inference_pass_no_error:
  assumes "inference_pass s = Some p"
  shows "\<exists>s' ch. p = Inr (s', ch)"
proof -
  let ?K = "filter (\<lambda>sen. cells sen \<noteq> {||}) (knowledge (marked s))"
  obtain r where r: "subset_loop 0 0 ?K (progress s) = Some r"
    using assms unfolding inference_pass_eq by (auto split: option.splits)
  from subset_loop_partial [OF r visited_start, of "\<lambda>_. True"]
  obtain N where "r = Inr (?K @ N, progress s \<or> N \<noteq> [])"
    by auto
  then show ?thesis
    using assms unfolding inference_pass_eq r by auto
qed

lemma inference_loop_no_error:
  assumes "inference_loop s = Some r"
  shows "\<exists>s'. r = Inr s'"
  using assms
proof (induction s r rule: inference_loop.raw_induct [rotated 1, consumes 1])
  case (1 f s r)
  obtain p where p: "inference_pass s = Some p"
    using "1.hyps" by (auto split: option.splits)
  from inference_pass_no_error [OF p] obtain s' ch where s': "p = Inr (s', ch)"
    by blast
  show ?case
  proof (cases ch)
    case True
    then have "f s' = Some r" using "1.hyps" p s' by simp
    then show ?thesis by (rule "1.IH")
  next
    case False
    then have "r = Inr s'" using "1.hyps" p s' by simp
    then show ?thesis by blast
  qed
qed

text \<open>
  C9 as stated fails. On a 3 by 3 board the observations \<open>(0,1) \<mapsto> 3\<close> and
  \<open>(1,1) \<mapsto> 1\<close> make the subset phase subtract a sentence of count 3 from a sentence
  of count 1. The call returns normally, and the knowledge base it returns holds the
  derived sentence with the count \<open>-2\<close>.
\<close>

theorem negative_count_counterexample:
  "add_knowledge (init_ai 3 3) (0, 1) 3 =
     Some (Inr \<lparr>height = 3, width = 3, moves_made = {|(0, 1)|}, mines = {||},
                safes = {|(0, 1)|},
                knowledge = [\<lparr>cells = {|(0, 0), (0, 2), (1, 0), (1, 1), (1, 2)|}, count = 3\<rparr>]\<rparr>)
   \<and> add_knowledge \<lparr>height = 3, width = 3, moves_made = {|(0, 1)|}, mines = {||},
                safes = {|(0, 1)|},
                knowledge = [\<lparr>cells = {|(0, 0), (0, 2), (1, 0), (1, 1), (1, 2)|}, count = 3\<rparr>]\<rparr>
        (1, 1) 1 =
     Some (Inr \<lparr>height = 3, width = 3, moves_made = {|(0, 1), (1, 1)|}, mines = {||},
                safes = {|(0, 1), (1, 1)|},
                knowledge =
                  [\<lparr>cells = {|(0, 0), (0, 2), (1, 0), (1, 2)|}, count = 3\<rparr>,
                   \<lparr>cells = {|(0, 0), (0, 2), (1, 0), (1, 2), (2, 0), (2, 1), (2, 2)|},
                    count = 1\<rparr>,
                   \<lparr>cells = {|(2, 0), (2, 1), (2, 2)|}, count = - 2\<rparr>]\<rparr>)"
  by code_simp

text \<open>
  C9, amended. Subset subtraction never signals anything: \<^verbatim>\<open>add_knowledge\<close> raises no
  error on any knowledge base and any observation, and when the subset phase of a pass
  returns, the difference of every pair of sentences with different cell sets, one
  contained in the other, is in the knowledge base also when its count is negative.
\<close>

theorem negative_count_not_signalled:
  "(add_knowledge s cell cnt = Some r \<longrightarrow> (\<exists>s'. r = Inr s'))
   \<and> (subset_loop 0 0 K ch = Some r' \<longrightarrow>
        (\<exists>K' ch'. r' = Inr (K', ch')
           \<and> (\<forall>a \<in> set K'. \<forall>b \<in> set K'.
                 cells a \<noteq> cells b \<and> cells a |\<subseteq>| cells b \<and> count b - count a < 0 \<longrightarrow>
                 \<lparr>cells = cells b |-| cells a, count = count b - count a\<rparr> \<in> set K')))"
proof (intro conjI impI)
  assume "add_knowledge s cell cnt = Some r"
  then show "\<exists>s'. r = Inr s'"
    unfolding add_knowledge_def by (rule inference_loop_no_error)
next
  assume r': "subset_loop 0 0 K ch = Some r'"
  from subset_loop_partial [OF r' visited_start, of "\<lambda>_. True"]
  obtain N where N: "r' = Inr (K @ N, ch \<or> N \<noteq> [])" "closed (K @ N)"
    by auto
  have "\<lparr>cells = cells b |-| cells a, count = count b - count a\<rparr> \<in> set (K @ N)"
    if "a \<in> set (K @ N)" "b \<in> set (K @ N)" "cells a \<noteq> cells b" "cells a |\<subseteq>| cells b"
    for a b
  proof -
    have "cells a |\<subset>| cells b" using that(3,4) by auto
    then show ?thesis
      using N(2) that(1,2) unfolding closed_def derived_def by blast
  qed
  with N(1) show "\<exists>K' ch'. r' = Inr (K', ch')
           \<and> (\<forall>a \<in> set K'. \<forall>b \<in> set K'.
                 cells a \<noteq> cells b \<and> cells a |\<subseteq>| cells b \<and> count b - count a < 0 \<longrightarrow>
                 \<lparr>cells = cells b |-| cells a, count = count b - count a\<rparr> \<in> set K')"
    by blast
qed

theorem negative_count_not_signalled_witness:
  "subset_loop 0 0 [\<lparr>cells = {|(0, 0)|}, count = 2\<rparr>, \<lparr>cells = {|(0, 0), (0, 1)|}, count = 1\<rparr>]
      False
     = Some (Inr ([\<lparr>cells = {|(0, 0)|}, count = 2\<rparr>, \<lparr>cells = {|(0, 0), (0, 1)|}, count = 1\<rparr>,
                   \<lparr>cells = {|(0, 1)|}, count = - 1\<rparr>], True))
   \<and> (\<exists>K' ch'. (Inr ([\<lparr>cells = {|(0, 0)|}, count = 2\<rparr>,
                       \<lparr>cells = {|(0, 0), (0, 1)|}, count = 1\<rparr>,
                       \<lparr>cells = {|(0, 1)|}, count = - 1\<rparr>], True)
                  :: error + sentence list \<times> bool) = Inr (K', ch')
         \<and> \<lparr>cells = {|(0, 1)|}, count = - 1\<rparr> \<in> set K')"
proof -
  have run: "subset_loop 0 0
      [\<lparr>cells = {|(0, 0)|}, count = 2\<rparr>, \<lparr>cells = {|(0, 0), (0, 1)|}, count = 1\<rparr>] False
     = Some (Inr ([\<lparr>cells = {|(0, 0)|}, count = 2\<rparr>, \<lparr>cells = {|(0, 0), (0, 1)|}, count = 1\<rparr>,
                   \<lparr>cells = {|(0, 1)|}, count = - 1\<rparr>], True))"
    by code_simp
  from negative_count_not_signalled [THEN conjunct2, rule_format, OF run] run
  show ?thesis
    by auto
qed

end
